theory Spec2Isabelle
  imports Complex_Main "HOL-Library.Sublist" "HOL-Library.Log_Nat"
begin

section \<open>The relational store\<close>

text \<open>
  The controllers of the form-builder backend work on a relational store through an
  object-relational mapper. The store is modelled as a record of tables, each table a
  list of rows in insertion order; a controller is a function from its request and the
  store to either an error status or a reply and the store it leaves behind.

  Columns that no modelled controller reads (creation and modification stamps, the
  theme and settings tables, the visitor's address and agent) are left out.
\<close>

datatype error = BadRequest | Forbidden | NotFound | Internal

text \<open>
  A nullable field of a request body is absent, \<open>null\<close> or a value. The mapper
  stores \<open>NULL\<close> for an absent or null field of a created row, and leaves the
  column of an updated row as it is when the field is absent.
\<close>

datatype 'a jsval = Undefined | JNull | JVal 'a

fun createCol :: "'a jsval \<Rightarrow> 'a option" where
  "createCol (JVal v) = Some v"
| "createCol JNull = None"
| "createCol Undefined = None"

fun updateCol :: "'a jsval \<Rightarrow> 'a option \<Rightarrow> 'a option" where
  "updateCol (JVal v) old = Some v"
| "updateCol JNull old = None"
| "updateCol Undefined old = old"

record form =
  f_id :: string
  f_title :: string
  f_description :: "string option"
  f_isPublished :: bool
  f_userId :: string

record validation =
  v_min :: "string option"
  v_max :: "string option"
  v_pattern :: "string option"

record question =
  q_id :: string
  q_formId :: string
  q_title :: string
  q_description :: "string option"
  q_type :: string
  q_isRequired :: bool
  q_options :: "string option"
  q_order :: int
  q_validation :: "validation option"

record conditionalLogic =
  cl_id :: string
  cl_questionId :: string
  cl_enabled :: bool

record conditionalRule =
  cr_id :: string
  cr_conditionalLogicId :: string
  cr_targetQuestionId :: string
  cr_operator :: string
  cr_value :: "string option"
  cr_action :: string

record response =
  r_id :: string
  r_formId :: string
  r_respondentId :: string
  r_isCompleted :: bool
  r_startedAt :: nat
  r_completedAt :: "nat option"

record answer =
  a_id :: string
  a_questionId :: string
  a_responseId :: string
  a_value :: "string option"
  a_fileUrl :: "string option"

record formVisit =
  fv_id :: string
  fv_formId :: string

record db =
  forms :: "form list"
  questions :: "question list"
  conditionalLogics :: "conditionalLogic list"
  conditionalRules :: "conditionalRule list"
  responses :: "response list"
  answers :: "answer list"
  formVisits :: "formVisit list"
  nextId :: nat

definition emptyDb :: db where
  "emptyDb = \<lparr>forms = [], questions = [], conditionalLogics = [], conditionalRules = [],
     responses = [], answers = [], formVisits = [], nextId = 0\<rparr>"

text \<open>
  \<open>uuid()\<close>: the generator of row identifiers and of respondent identifiers. The
  \<open>n\<close>-th identifier drawn from the store is \<open>uuid n\<close>; the numbering is unary,
  which makes the identifiers pairwise different.
\<close>

definition uuid :: "nat \<Rightarrow> string" where
  "uuid n = ''uuid-'' @ replicate n (CHR ''1'')"

text \<open>\<open>update({where, data})\<close> and \<open>deleteMany({where})\<close> of the mapper.\<close>

definition updateWhere :: "('a \<Rightarrow> bool) \<Rightarrow> ('a \<Rightarrow> 'a) \<Rightarrow> 'a list \<Rightarrow> 'a list" where
  "updateWhere P f rows = map (\<lambda>row. if P row then f row else row) rows"

definition deleteWhere :: "('a \<Rightarrow> bool) \<Rightarrow> 'a list \<Rightarrow> 'a list" where
  "deleteWhere P rows = filter (\<lambda>row. \<not> P row) rows"

text \<open>
  The questions of a form as every controller loads them:
  \<open>where: {formId}, orderBy: {order: 'asc'}\<close>. The query does not say in which
  order the store returns rows of equal order; here they keep their insertion order, and
  every statement below that reads a position in the list is made for a form whose
  orders are pairwise different, or holds for any order of the ties.
\<close>

definition formQuestions :: "db \<Rightarrow> string \<Rightarrow> question list" where
  "formQuestions s formId = sort_key q_order (filter (\<lambda>q. q_formId q = formId) (questions s))"

text \<open>\<open>Array.prototype.findIndex\<close>: the first position that satisfies \<open>P\<close>, or \<open>-1\<close>.\<close>

fun findIndex :: "('a \<Rightarrow> bool) \<Rightarrow> 'a list \<Rightarrow> int" where
  "findIndex P [] = - 1"
| "findIndex P (x # xs) =
     (if P x then 0 else (let i = findIndex P xs in if i < 0 then - 1 else i + 1))"

section \<open>The response controller\<close>

record formSummary =
  fs_id :: string
  fs_title :: string
  fs_description :: "string option"
  fs_questionCount :: nat
  fs_firstQuestion :: "question option"

record startResult =
  st_responseId :: string
  st_respondentId :: string
  st_form :: formSummary

text \<open>
  \<open>startResponse\<close> (response.controller.js, 15-73). The clock reading \<open>now\<close>
  is the value the store gives \<open>startedAt\<close>.
\<close>

definition startResponse :: "string \<Rightarrow> nat \<Rightarrow> db \<Rightarrow> error + (startResult \<times> db)" where
  "startResponse formId now s =
     (case find (\<lambda>f. f_id f = formId \<and> f_isPublished f) (forms s) of
        None \<Rightarrow> Inl NotFound
      | Some form \<Rightarrow>
          let qs = formQuestions s (f_id form);
              respondentId = uuid (nextId s);
              response = \<lparr>r_id = uuid (nextId s + 1), r_formId = formId,
                r_respondentId = respondentId, r_isCompleted = False,
                r_startedAt = now, r_completedAt = None\<rparr>
          in Inr (\<lparr>st_responseId = r_id response,
                    st_respondentId = r_respondentId response,
                    st_form = \<lparr>fs_id = f_id form, fs_title = f_title form,
                      fs_description = f_description form,
                      fs_questionCount = length qs,
                      fs_firstQuestion = (if length qs > 0 then Some (qs ! 0) else None)\<rparr>\<rparr>,
                  s\<lparr>responses := responses s @ [response], nextId := nextId s + 2\<rparr>))"

record submitResult =
  sr_answer :: answer
  sr_nextQuestion :: "question option"
  sr_isLastQuestion :: bool

text \<open>
  The upsert of \<open>submitAnswer\<close> (response.controller.js, 117-145): the reply's
  answer row and the answers table afterwards.
\<close>

definition upsertAnswer ::
  "string \<Rightarrow> string \<Rightarrow> string jsval \<Rightarrow> string jsval \<Rightarrow> db \<Rightarrow> answer \<times> db" where
  "upsertAnswer responseId questionId val fileUrl s =
     (case find (\<lambda>a. a_responseId a = responseId \<and> a_questionId a = questionId) (answers s) of
        Some existingAnswer \<Rightarrow>
          let upd = (\<lambda>a. a\<lparr>a_value := updateCol val (a_value a),
                             a_fileUrl := updateCol fileUrl (a_fileUrl a)\<rparr>)
          in (upd existingAnswer,
              s\<lparr>answers := updateWhere (\<lambda>a. a_id a = a_id existingAnswer) upd (answers s)\<rparr>)
      | None \<Rightarrow>
          let answer = \<lparr>a_id = uuid (nextId s), a_questionId = questionId,
                a_responseId = responseId, a_value = createCol val,
                a_fileUrl = createCol fileUrl\<rparr>
          in (answer, s\<lparr>answers := answers s @ [answer], nextId := nextId s + 1\<rparr>))"

text \<open>
  \<open>submitAnswer\<close> (response.controller.js, 80-178). \<open>now\<close> is the reading of
  \<open>new Date()\<close> written to \<open>completedAt\<close>. The questions of the response's form
  are reached through the foreign key of the response.
\<close>

definition submitAnswer ::
  "string \<Rightarrow> string \<Rightarrow> string jsval \<Rightarrow> string jsval \<Rightarrow> nat \<Rightarrow> db
     \<Rightarrow> error + (submitResult \<times> db)" where
  "submitAnswer responseId questionId val fileUrl now s =
     (case find (\<lambda>r. r_id r = responseId) (responses s) of
        None \<Rightarrow> Inl NotFound
      | Some response \<Rightarrow>
          let qs = formQuestions s (r_formId response) in
          (case find (\<lambda>q. q_id q = questionId) qs of
             None \<Rightarrow> Inl NotFound
           | Some question \<Rightarrow>
               let (answer, s1) = upsertAnswer responseId questionId val fileUrl s;
                   currentQuestionIndex = findIndex (\<lambda>q. q_id q = questionId) qs;
                   nextQuestion =
                     (if currentQuestionIndex < int (length qs) - 1
                      then Some (qs ! nat (currentQuestionIndex + 1)) else None);
                   isLastQuestion = (currentQuestionIndex = int (length qs) - 1);
                   s2 = (if isLastQuestion
                         then s1\<lparr>responses := updateWhere (\<lambda>r. r_id r = responseId)
                                 (\<lambda>r. r\<lparr>r_isCompleted := True, r_completedAt := Some now\<rparr>)
                                 (responses s1)\<rparr>
                         else s1)
               in Inr (\<lparr>sr_answer = answer, sr_nextQuestion = nextQuestion,
                         sr_isLastQuestion = isLastQuestion\<rparr>, s2)))"




section \<open>The form controller\<close>

text \<open>
  The owner of a request is the user the authentication middleware attached to it. A
  request body is a record of its fields; a field the store requires is a plain value,
  so a body that lacks one (on which the mapper raises) is outside the type.
\<close>

text \<open>\<open>x || false\<close> on an optional flag.\<close>

fun orFalse :: "bool option \<Rightarrow> bool" where
  "orFalse (Some b) = b"
| "orFalse None = False"

record createFormBody =
  cf_title :: string
  cf_description :: "string jsval"
  cf_isPublished :: "bool option"

text \<open>\<open>createForm\<close> (form.controller.js, 14-62).\<close>

definition createForm :: "createFormBody \<Rightarrow> string \<Rightarrow> db \<Rightarrow> error + (form \<times> db)" where
  "createForm body userId s =
     (let form = \<lparr>f_id = uuid (nextId s), f_title = cf_title body,
            f_description = createCol (cf_description body),
            f_isPublished = orFalse (cf_isPublished body), f_userId = userId\<rparr>
      in Inr (form, s\<lparr>forms := forms s @ [form], nextId := nextId s + 1\<rparr>))"

text \<open>\<open>publishForm\<close> (form.controller.js, 521-571).\<close>

definition publishForm :: "string \<Rightarrow> string \<Rightarrow> db \<Rightarrow> error + (form \<times> db)" where
  "publishForm ident userId s =
     (case find (\<lambda>f. f_id f = ident \<and> f_userId f = userId) (forms s) of
        None \<Rightarrow> Inl NotFound
      | Some existingForm \<Rightarrow>
          if length (filter (\<lambda>q. q_formId q = f_id existingForm) (questions s)) = 0
          then Inl BadRequest
          else Inr (existingForm\<lparr>f_isPublished := True\<rparr>,
                    s\<lparr>forms := updateWhere (\<lambda>f. f_id f = ident)
                                 (\<lambda>f. f\<lparr>f_isPublished := True\<rparr>) (forms s)\<rparr>))"

text \<open>
  Deleting questions cascades to their answers and their conditional logic, and from
  the conditional logic to its rules (schema.prisma, \<open>onDelete: Cascade\<close>).
\<close>

definition deleteQuestions :: "(question \<Rightarrow> bool) \<Rightarrow> db \<Rightarrow> db" where
  "deleteQuestions P s =
     (let gone = map q_id (filter P (questions s));
          goneLogic = map cl_id (filter (\<lambda>l. cl_questionId l \<in> set gone) (conditionalLogics s))
      in s\<lparr>questions := deleteWhere P (questions s),
           answers := deleteWhere (\<lambda>a. a_questionId a \<in> set gone) (answers s),
           conditionalLogics :=
             deleteWhere (\<lambda>l. cl_questionId l \<in> set gone) (conditionalLogics s),
           conditionalRules :=
             deleteWhere (\<lambda>r. cr_conditionalLogicId r \<in> set goneLogic) (conditionalRules s)\<rparr>)"

record ruleEntry =
  re_questionId :: string
  re_operator :: string
  re_value :: "string jsval"
  re_action :: "string option"









text \<open>\<open>conditionalRule.createMany\<close> for the rules of an entry.\<close>

definition makeRule :: "string \<Rightarrow> nat \<Rightarrow> ruleEntry \<Rightarrow> conditionalRule" where
  "makeRule logicId n rule = \<lparr>cr_id = uuid n, cr_conditionalLogicId = logicId,
     cr_targetQuestionId = re_questionId rule, cr_operator = re_operator rule,
     cr_value = createCol (re_value rule),
     cr_action = (case re_action rule of None \<Rightarrow> ''show'' | Some a \<Rightarrow> a)\<rparr>"

definition createRules :: "string \<Rightarrow> ruleEntry list \<Rightarrow> db \<Rightarrow> db" where
  "createRules logicId rules s =
     s\<lparr>conditionalRules := conditionalRules s @
          map (\<lambda>(i, rule). makeRule logicId (nextId s + i) rule) (enumerate 0 rules),
       nextId := nextId s + length rules\<rparr>"















section \<open>The question controller\<close>

text \<open>
  The loop of \<open>deleteQuestion\<close> over the rows that followed the deleted one: the
  row at position \<open>index\<close> gets the order \<open>existingQuestion.order + index\<close>.
\<close>

fun reorderRemaining :: "int \<Rightarrow> nat \<Rightarrow> question list \<Rightarrow> question list \<Rightarrow> question list" where
  "reorderRemaining base index [] table = table"
| "reorderRemaining base index (question # rest) table =
     reorderRemaining base (Suc index) rest
       (updateWhere (\<lambda>q. q_id q = q_id question) (\<lambda>q. q\<lparr>q_order := base + int index\<rparr>) table)"

text \<open>\<open>deleteQuestion\<close> (question.controller.js, 144-218).\<close>

definition deleteQuestion :: "string \<Rightarrow> string \<Rightarrow> string \<Rightarrow> db \<Rightarrow> error + db" where
  "deleteQuestion formId ident userId s =
     (case find (\<lambda>f. f_id f = formId \<and> f_userId f = userId) (forms s) of
        None \<Rightarrow> Inl NotFound
      | Some form \<Rightarrow>
          (case find (\<lambda>q. q_id q = ident \<and> q_formId q = formId) (questions s) of
             None \<Rightarrow> Inl NotFound
           | Some existingQuestion \<Rightarrow>
               let s1 = deleteQuestions (\<lambda>q. q_id q = ident) s;
                   remainingQuestions = sort_key q_order
                     (filter (\<lambda>q. q_formId q = formId \<and> q_order q > q_order existingQuestion)
                        (questions s1))
               in Inr (s1\<lparr>questions := reorderRemaining (q_order existingQuestion) 0
                                          remainingQuestions (questions s1)\<rparr>)))"

section \<open>JavaScript numbers\<close>

text \<open>
  A JavaScript number is an IEEE 754 binary64 value. The analytics work on row counts
  and on quotients and products of them, which are finite; a finite double is modelled
  as the rational number it denotes, and an arithmetic operation as the exact operation
  followed by the rounding of the standard: to the nearest double, ties to the one with
  an even significand. A row count is below \<open>2^53\<close> and is a double as it stands.
\<close>

definition pow2 :: "int \<Rightarrow> rat" where
  "pow2 e = (if 0 \<le> e then 2 ^ nat e else 1 / 2 ^ nat (- e))"








section \<open>The analytics of a form\<close>









section \<open>Sequences of calls\<close>

text \<open>
  The store after a sequence of \<open>submitAnswer\<close> calls for one response and one
  question, each call with its value, its file reference and its clock reading. A call
  that is refused leaves the store as it is.
\<close>

definition submitStep ::
  "string \<Rightarrow> string \<Rightarrow> string jsval \<times> string jsval \<times> nat \<Rightarrow> db \<Rightarrow> db" where
  "submitStep responseId questionId call s =
     (case submitAnswer responseId questionId (fst call) (fst (snd call)) (snd (snd call)) s of
        Inl e \<Rightarrow> s
      | Inr (res, s') \<Rightarrow> s')"

definition submitMany ::
  "string \<Rightarrow> string \<Rightarrow> (string jsval \<times> string jsval \<times> nat) list \<Rightarrow> db \<Rightarrow> db" where
  "submitMany responseId questionId calls s = fold (submitStep responseId questionId) calls s"

text \<open>The answers stored for a response and a question.\<close>

definition answersFor :: "db \<Rightarrow> string \<Rightarrow> string \<Rightarrow> answer list" where
  "answersFor s responseId questionId =
     filter (\<lambda>a. a_responseId a = responseId \<and> a_questionId a = questionId) (answers s)"

text \<open>
  The calls of a respondent session: \<open>startResponse\<close> and \<open>submitAnswer\<close>, each
  with the clock reading of the moment it runs.
\<close>

datatype sessionCall =
  Start string nat
| Submit string string "string jsval" "string jsval" nat

fun callTime :: "sessionCall \<Rightarrow> nat" where
  "callTime (Start formId now) = now"
| "callTime (Submit responseId questionId val fileUrl now) = now"

fun sessionStep :: "sessionCall \<Rightarrow> db \<Rightarrow> db" where
  "sessionStep (Start formId now) s =
     (case startResponse formId now s of Inl e \<Rightarrow> s | Inr (res, s') \<Rightarrow> s')"
| "sessionStep (Submit responseId questionId val fileUrl now) s =
     (case submitAnswer responseId questionId val fileUrl now s of
        Inl e \<Rightarrow> s
      | Inr (res, s') \<Rightarrow> s')"

definition session :: "sessionCall list \<Rightarrow> db \<Rightarrow> db" where
  "session calls s = fold sessionStep calls s"

text \<open>
  What the store holds for a response and a question before a call: the value and the
  file reference of the first stored answer, or nothing.
\<close>

definition storedValue :: "db \<Rightarrow> string \<Rightarrow> string \<Rightarrow> string option" where
  "storedValue s responseId questionId =
     (case answersFor s responseId questionId of [] \<Rightarrow> None | a # rest \<Rightarrow> a_value a)"

definition storedFileUrl :: "db \<Rightarrow> string \<Rightarrow> string \<Rightarrow> string option" where
  "storedFileUrl s responseId questionId =
     (case answersFor s responseId questionId of [] \<Rightarrow> None | a # rest \<Rightarrow> a_fileUrl a)"

text \<open>A call for the pair is accepted: the response exists and the question is one of its form.\<close>

definition submittable :: "db \<Rightarrow> string \<Rightarrow> string \<Rightarrow> bool" where
  "submittable s responseId questionId =
     (\<exists>response. find (\<lambda>r. r_id r = responseId) (responses s) = Some response \<and>
        (\<exists>q\<in>set (questions s). q_formId q = r_formId response \<and> q_id q = questionId))"

text \<open>
  The stamps of the responses at clock reading \<open>t\<close>: no response started later than
  \<open>t\<close>, and a completed response carries a completion stamp no earlier than its start.
\<close>

definition stamped :: "nat \<Rightarrow> db \<Rightarrow> bool" where
  "stamped t s =
     (\<forall>r\<in>set (responses s). r_startedAt r \<le> t \<and>
        (r_isCompleted r \<longrightarrow> (\<exists>c. r_completedAt r = Some c \<and> r_startedAt r \<le> c)))"

text \<open>Every completed response carries a completion stamp.\<close>

definition recorded :: "db \<Rightarrow> bool" where
  "recorded s = (\<forall>r\<in>set (responses s). r_isCompleted r \<longrightarrow> r_completedAt r \<noteq> None)"


section \<open>The conditional logic engine of the specification\<close>

text \<open>
  No controller of the backend evaluates conditional rules: the rules are stored by the
  form controller and handed out with the form. The following definitions follow the
  words of the specification (section 4.1 and the "next question" rule of section 4.2)
  and are what the controllers are compared with. A rule whose target question has no
  answer is not satisfied; the rules of a question combine by conjunction; an operator
  other than the two the specification requires is read as not satisfied.
\<close>

definition spec_ruleSatisfied :: "(string \<Rightarrow> string option) \<Rightarrow> conditionalRule \<Rightarrow> bool" where
  "spec_ruleSatisfied ans rule =
     (case ans (cr_targetQuestionId rule) of
        None \<Rightarrow> False
      | Some v \<Rightarrow>
          if cr_operator rule = ''equals'' then cr_value rule = Some v
          else if cr_operator rule = ''notEquals'' then cr_value rule \<noteq> Some v
          else False)"

definition spec_visible :: "db \<Rightarrow> (string \<Rightarrow> string option) \<Rightarrow> question \<Rightarrow> bool" where
  "spec_visible s ans q =
     (case find (\<lambda>l. cl_questionId l = q_id q) (conditionalLogics s) of
        None \<Rightarrow> True
      | Some l \<Rightarrow> \<not> cl_enabled l \<or>
          list_all (spec_ruleSatisfied ans)
            (filter (\<lambda>r. cr_conditionalLogicId r = cl_id l) (conditionalRules s)))"

text \<open>The answers a response holds, as a map from question identifier to value.\<close>

definition answersSoFar :: "db \<Rightarrow> string \<Rightarrow> string \<Rightarrow> string option" where
  "answersSoFar s responseId questionId =
     (case find (\<lambda>a. a_responseId a = responseId \<and> a_questionId a = questionId) (answers s) of
        None \<Rightarrow> None
      | Some a \<Rightarrow> a_value a)"

definition spec_nextQuestion :: "db \<Rightarrow> string \<Rightarrow> question \<Rightarrow> question option" where
  "spec_nextQuestion s responseId current =
     find (\<lambda>q. q_order current < q_order q \<and> spec_visible s (answersSoFar s responseId) q)
       (formQuestions s (q_formId current))"

definition spec_firstQuestion :: "db \<Rightarrow> string \<Rightarrow> question option" where
  "spec_firstQuestion s formId =
     find (spec_visible s (\<lambda>questionId. None)) (formQuestions s formId)"

section \<open>The rates of the specification\<close>





section \<open>Example stores\<close>

definition mkQuestion :: "string \<Rightarrow> string \<Rightarrow> int \<Rightarrow> question" where
  "mkQuestion questionId formId ord = \<lparr>q_id = questionId, q_formId = formId, q_title = ''t'',
     q_description = None, q_type = ''text'', q_isRequired = False, q_options = None,
     q_order = ord, q_validation = None\<rparr>"

text \<open>
  The scenario of the specification: a published form \<open>F\<close> with questions \<open>Q1\<close>
  (order 0), \<open>Q2\<close> (order 1, shown if \<open>Q1\<close> equals "yes") and \<open>Q3\<close> (order 2), and
  a response \<open>R\<close> in progress.
\<close>

definition scenarioDb :: db where
  "scenarioDb = \<lparr>
     forms = [\<lparr>f_id = ''F'', f_title = ''t'', f_description = None,
                f_isPublished = True, f_userId = ''u''\<rparr>],
     questions = [mkQuestion ''Q1'' ''F'' 0, mkQuestion ''Q2'' ''F'' 1, mkQuestion ''Q3'' ''F'' 2],
     conditionalLogics = [\<lparr>cl_id = ''L2'', cl_questionId = ''Q2'', cl_enabled = True\<rparr>],
     conditionalRules = [\<lparr>cr_id = ''C1'', cr_conditionalLogicId = ''L2'',
        cr_targetQuestionId = ''Q1'', cr_operator = ''equals'', cr_value = Some ''yes'',
        cr_action = ''show''\<rparr>],
     responses = [\<lparr>r_id = ''R'', r_formId = ''F'', r_respondentId = ''P'',
        r_isCompleted = False, r_startedAt = 1, r_completedAt = None\<rparr>],
     answers = [], formVisits = [], nextId = 0\<rparr>"

text \<open>
  A published form \<open>G\<close> whose first question \<open>A\<close> is shown only if the second
  question \<open>B\<close> was answered "yes".
\<close>

definition branchDb :: db where
  "branchDb = \<lparr>
     forms = [\<lparr>f_id = ''G'', f_title = ''t'', f_description = None,
                f_isPublished = True, f_userId = ''u''\<rparr>],
     questions = [mkQuestion ''A'' ''G'' 0, mkQuestion ''B'' ''G'' 1],
     conditionalLogics = [\<lparr>cl_id = ''L'', cl_questionId = ''A'', cl_enabled = True\<rparr>],
     conditionalRules = [\<lparr>cr_id = ''C'', cr_conditionalLogicId = ''L'',
        cr_targetQuestionId = ''B'', cr_operator = ''equals'', cr_value = Some ''yes'',
        cr_action = ''show''\<rparr>],
     responses = [], answers = [], formVisits = [], nextId = 0\<rparr>"



text \<open>An unpublished form \<open>D\<close> with four questions at the orders 0, 1, 2 and 3.\<close>

definition fourDb :: db where
  "fourDb = \<lparr>
     forms = [\<lparr>f_id = ''D'', f_title = ''t'', f_description = None,
                f_isPublished = False, f_userId = ''u''\<rparr>],
     questions = [mkQuestion ''a'' ''D'' 0, mkQuestion ''b'' ''D'' 1, mkQuestion ''c'' ''D'' 2,
                  mkQuestion ''d'' ''D'' 3],
     conditionalLogics = [], conditionalRules = [], responses = [], answers = [],
     formVisits = [], nextId = 0\<rparr>"






section \<open>Lists\<close>

lemma findIndex_find:
  "find P xs = Some x \<Longrightarrow>
     0 \<le> findIndex P xs \<and> nat (findIndex P xs) < length xs \<and> xs ! nat (findIndex P xs) = x"
proof (induction xs)
  case Nil
  then show ?case by simp
next
  case (Cons y ys)
  show ?case
  proof (cases "P y")
    case True
    with Cons.prems show ?thesis by simp
  next
    case False
    with Cons.prems have "find P ys = Some x" by simp
    from Cons.IH [OF this] False show ?thesis
      by (simp add: Let_def nat_add_distrib)
  qed
qed

lemma find_after_strict:
  "sorted_wrt (<) (map f xs) \<Longrightarrow> i < length xs \<Longrightarrow>
     find (\<lambda>y. (f (xs ! i) :: int) < f y) xs =
       (if Suc i < length xs then Some (xs ! Suc i) else None)"
proof (induction xs arbitrary: i)
  case Nil
  then show ?case by simp
next
  case (Cons x xs)
  show ?case
  proof (cases i)
    case 0
    with Cons.prems show ?thesis by (cases xs) auto
  next
    case (Suc j)
    with Cons.prems have j: "j < length xs" and less: "f x < f (xs ! j)" by auto
    from Cons.prems have "sorted_wrt (<) (map f xs)" by simp
    from Cons.IH [OF this j] Suc less show ?thesis by simp
  qed
qed


section \<open>Navigation after an answer\<close>

text \<open>
  Claim C1 says that \<open>submitAnswer\<close> returns the first question after the answered
  one that the conditional logic engine marks visible. On the scenario of the
  specification, answering \<open>Q1\<close> with "no" returns \<open>Q2\<close>, whose only rule is not
  satisfied, where the rule of the specification gives \<open>Q3\<close>.
\<close>

theorem submitAnswer_scenario_counterexample:
  "sr_nextQuestion (fst (projr (submitAnswer ''R'' ''Q1'' (JVal ''no'') Undefined 2 scenarioDb)))
     = Some (mkQuestion ''Q2'' ''F'' 1) \<and>
   \<not> sr_isLastQuestion (fst (projr (submitAnswer ''R'' ''Q1'' (JVal ''no'') Undefined 2 scenarioDb))) \<and>
   spec_nextQuestion (snd (projr (submitAnswer ''R'' ''Q1'' (JVal ''no'') Undefined 2 scenarioDb)))
       ''R'' (mkQuestion ''Q1'' ''F'' 0)
     = Some (mkQuestion ''Q3'' ''F'' 2)"
  by (simp add: submitAnswer_def scenarioDb_def formQuestions_def mkQuestion_def
      upsertAnswer_def Let_def spec_nextQuestion_def spec_visible_def spec_ruleSatisfied_def
      answersSoFar_def)

text \<open>
  Claim C1, amended: for every \<open>submitAnswer\<close> call on an existing response whose
  question belongs to the response's form, the orders of the form's questions being
  pairwise different, the call succeeds, the returned next question is the first question
  of the form in ascending order strictly after the answered question's order, whatever
  its conditional logic, or none if no question follows, and \<open>isLastQuestion\<close> is
  true exactly when there is no next question.
\<close>

theorem submitAnswer_nextQuestion:
  assumes resp: "find (\<lambda>r. r_id r = responseId) (responses s) = Some response"
    and quest: "find (\<lambda>q. q_id q = questionId) (formQuestions s (r_formId response)) = Some question"
    and dist: "distinct (map q_order (formQuestions s (r_formId response)))"
  shows "\<exists>res s'. submitAnswer responseId questionId val fileUrl now s = Inr (res, s') \<and>
           sr_nextQuestion res =
             find (\<lambda>q. q_order question < q_order q) (formQuestions s (r_formId response)) \<and>
           sr_isLastQuestion res = (sr_nextQuestion res = None)"
proof -
  let ?qs = "formQuestions s (r_formId response)"
  let ?i = "findIndex (\<lambda>q. q_id q = questionId) ?qs"
  from findIndex_find [OF quest]
  have i0: "0 \<le> ?i" and ilen: "nat ?i < length ?qs" and iq: "?qs ! nat ?i = question"
    by simp_all
  have "sorted (map q_order ?qs)"
    by (simp add: formQuestions_def)
  with dist have strict: "sorted_wrt (<) (map q_order ?qs)"
    by (simp add: strict_sorted_iff)
  have nxt: "find (\<lambda>q. q_order question < q_order q) ?qs =
      (if Suc (nat ?i) < length ?qs then Some (?qs ! Suc (nat ?i)) else None)"
    using find_after_strict [OF strict ilen] iq by simp
  have idx: "(?i < int (length ?qs) - 1) = (Suc (nat ?i) < length ?qs)"
    using i0 by linarith
  have suc: "nat (?i + 1) = Suc (nat ?i)"
    using i0 by simp
  have last: "(?i = int (length ?qs) - 1) = (\<not> Suc (nat ?i) < length ?qs)"
    using i0 ilen by linarith
  show ?thesis
    by (simp add: submitAnswer_def resp quest Let_def nxt idx suc last split: prod.splits)
qed

theorem submitAnswer_nextQuestion_witness:
  "find (\<lambda>r. r_id r = ''R'') (responses scenarioDb) = Some (hd (responses scenarioDb)) \<and>
   find (\<lambda>q. q_id q = ''Q1'') (formQuestions scenarioDb (r_formId (hd (responses scenarioDb))))
     = Some (mkQuestion ''Q1'' ''F'' 0) \<and>
   distinct (map q_order (formQuestions scenarioDb (r_formId (hd (responses scenarioDb))))) \<and>
   (\<exists>res s'. submitAnswer ''R'' ''Q1'' (JVal ''no'') Undefined 2 scenarioDb = Inr (res, s') \<and>
      sr_nextQuestion res = Some (mkQuestion ''Q2'' ''F'' 1) \<and>
      sr_isLastQuestion res = (sr_nextQuestion res = None))"
proof -
  have h1: "find (\<lambda>r. r_id r = ''R'') (responses scenarioDb) = Some (hd (responses scenarioDb))"
    by (simp add: scenarioDb_def)
  have qs: "formQuestions scenarioDb (r_formId (hd (responses scenarioDb))) =
      [mkQuestion ''Q1'' ''F'' 0, mkQuestion ''Q2'' ''F'' 1, mkQuestion ''Q3'' ''F'' 2]"
    by (simp add: scenarioDb_def formQuestions_def mkQuestion_def)
  have h2: "find (\<lambda>q. q_id q = ''Q1'')
      (formQuestions scenarioDb (r_formId (hd (responses scenarioDb)))) = Some (mkQuestion ''Q1'' ''F'' 0)"
    by (simp add: qs mkQuestion_def)
  have h3: "distinct (map q_order (formQuestions scenarioDb (r_formId (hd (responses scenarioDb)))))"
    by (simp add: qs mkQuestion_def)
  have nxt: "find (\<lambda>q. q_order (mkQuestion ''Q1'' ''F'' 0) < q_order q)
      (formQuestions scenarioDb (r_formId (hd (responses scenarioDb)))) = Some (mkQuestion ''Q2'' ''F'' 1)"
    by (simp add: qs mkQuestion_def)
  from submitAnswer_nextQuestion [OF h1 h2 h3, of "JVal ''no''" Undefined 2]
  have "\<exists>res s'. submitAnswer ''R'' ''Q1'' (JVal ''no'') Undefined 2 scenarioDb = Inr (res, s') \<and>
      sr_nextQuestion res = Some (mkQuestion ''Q2'' ''F'' 1) \<and>
      sr_isLastQuestion res = (sr_nextQuestion res = None)"
    by (simp only: nxt)
  with h1 h2 h3 show ?thesis
    by (intro conjI)
qed

section \<open>Starting a response\<close>

lemma uuid_inj: "(uuid m = uuid n) = (m = n)"
proof
  assume "uuid m = uuid n"
  then have "length (uuid m) = length (uuid n)" by simp
  then show "m = n" by (simp add: uuid_def)
qed simp

lemma sort_key_Cons_min:
  "sort_key f xs = y # ys \<Longrightarrow> x \<in> set xs \<Longrightarrow> f y \<le> f x"
proof -
  assume eq: "sort_key f xs = y # ys" and x: "x \<in> set xs"
  have "sorted (map f (sort_key f xs))" by simp
  with eq have "\<forall>z\<in>set (y # ys). f y \<le> f z" by auto
  moreover from x have "x \<in> set (sort_key f xs)" by simp
  ultimately show ?thesis using eq by auto
qed

text \<open>
  Claim C2 says that \<open>startResponse\<close> returns as first question the first question
  that the conditional logic engine marks visible under no answers. On the form \<open>G\<close>
  the reply points at \<open>A\<close>, whose rule is not satisfied, where the rule of the
  specification gives \<open>B\<close>.
\<close>

theorem startResponse_counterexample:
  "fs_firstQuestion (st_form (fst (projr (startResponse ''G'' 5 branchDb)))) = Some (mkQuestion ''A'' ''G'' 0) \<and>
   spec_firstQuestion branchDb ''G'' = Some (mkQuestion ''B'' ''G'' 1)"
  by (simp add: startResponse_def branchDb_def formQuestions_def mkQuestion_def Let_def
      spec_firstQuestion_def spec_visible_def spec_ruleSatisfied_def)

text \<open>
  Claim C2, amended: \<open>startResponse\<close> fails with \<open>NotFound\<close> exactly when no
  published form has the identifier; otherwise it appends a response that is not
  completed, whose respondent identifier is drawn from the generator and differs from
  every identifier drawn before, and the first question of the reply is a question of
  the form of least order, whatever its conditional logic, or none if the form has no
  question.
\<close>

theorem startResponse_result:
  "(startResponse formId now s = Inl NotFound) =
      (\<forall>f\<in>set (forms s). f_id f = formId \<longrightarrow> \<not> f_isPublished f) \<and>
   ((\<exists>f\<in>set (forms s). f_id f = formId \<and> f_isPublished f) \<longrightarrow>
      (\<exists>res s' r. startResponse formId now s = Inr (res, s') \<and>
         responses s' = responses s @ [r] \<and>
         r_id r = st_responseId res \<and> r_formId r = formId \<and>
         r_respondentId r = st_respondentId res \<and> \<not> r_isCompleted r \<and>
         st_respondentId res = uuid (nextId s) \<and>
         (\<forall>k < nextId s. uuid k \<noteq> st_respondentId res) \<and>
         (fs_firstQuestion (st_form res) = None) = (\<forall>q\<in>set (questions s). q_formId q \<noteq> formId) \<and>
         (\<forall>q. fs_firstQuestion (st_form res) = Some q \<longrightarrow>
            q \<in> set (questions s) \<and> q_formId q = formId \<and>
            (\<forall>q'\<in>set (questions s). q_formId q' = formId \<longrightarrow> q_order q \<le> q_order q'))))"
proof (cases "find (\<lambda>f. f_id f = formId \<and> f_isPublished f) (forms s)")
  case None
  then have "\<forall>f\<in>set (forms s). f_id f = formId \<longrightarrow> \<not> f_isPublished f"
    by (auto simp: find_None_iff)
  then show ?thesis
    by (auto simp: startResponse_def None)
next
  case (Some form)
  then have form: "f_id form = formId" "f_isPublished form" "form \<in> set (forms s)"
    by (auto simp: find_Some_iff)
  let ?qs = "formQuestions s formId"
  have set_qs: "set ?qs = {q \<in> set (questions s). q_formId q = formId}"
    by (auto simp: formQuestions_def)
  have none: "(?qs = []) = (\<forall>q\<in>set (questions s). q_formId q \<noteq> formId)"
  proof -
    have "(?qs = []) = (set ?qs = {})" by simp
    also have "\<dots> = (\<forall>q\<in>set (questions s). q_formId q \<noteq> formId)"
      unfolding set_qs by blast
    finally show ?thesis .
  qed
  have first: "q \<in> set (questions s) \<and> q_formId q = formId \<and>
      (\<forall>q'\<in>set (questions s). q_formId q' = formId \<longrightarrow> q_order q \<le> q_order q')"
    if "?qs \<noteq> []" "?qs ! 0 = q" for q
  proof -
    from that obtain rest where eq: "?qs = q # rest" by (cases ?qs) auto
    then have "q \<in> set ?qs" by simp
    moreover have "q_order q \<le> q_order q'" if "q' \<in> set (questions s)" "q_formId q' = formId" for q'
      using sort_key_Cons_min [OF eq [unfolded formQuestions_def], of q'] that by simp
    ultimately show ?thesis using set_qs by auto
  qed
  have nf: "\<not> (\<forall>f\<in>set (forms s). f_id f = formId \<longrightarrow> \<not> f_isPublished f)"
    using form by blast
  define r where "r = \<lparr>r_id = uuid (nextId s + 1), r_formId = formId,
    r_respondentId = uuid (nextId s), r_isCompleted = False, r_startedAt = now,
    r_completedAt = None\<rparr>"
  define res where "res = \<lparr>st_responseId = uuid (nextId s + 1), st_respondentId = uuid (nextId s),
    st_form = \<lparr>fs_id = formId, fs_title = f_title form, fs_description = f_description form,
      fs_questionCount = length ?qs,
      fs_firstQuestion = (if length ?qs > 0 then Some (?qs ! 0) else None)\<rparr>\<rparr>"
  define s' where "s' = s\<lparr>responses := responses s @ [r], nextId := nextId s + 2\<rparr>"
  have run: "startResponse formId now s = Inr (res, s')"
    by (simp add: startResponse_def Some form Let_def res_def s'_def r_def)
  have fq_none: "(fs_firstQuestion (st_form res) = None) =
      (\<forall>q\<in>set (questions s). q_formId q \<noteq> formId)"
    using none by (simp add: res_def)
  have fq_some: "\<forall>q. fs_firstQuestion (st_form res) = Some q \<longrightarrow>
      q \<in> set (questions s) \<and> q_formId q = formId \<and>
      (\<forall>q'\<in>set (questions s). q_formId q' = formId \<longrightarrow> q_order q \<le> q_order q')"
  proof (intro allI impI)
    fix q assume "fs_firstQuestion (st_form res) = Some q"
    then have "?qs \<noteq> []" "?qs ! 0 = q"
      by (auto simp: res_def split: if_splits)
    then show "q \<in> set (questions s) \<and> q_formId q = formId \<and>
      (\<forall>q'\<in>set (questions s). q_formId q' = formId \<longrightarrow> q_order q \<le> q_order q')"
      by (rule first)
  qed
  have fresh: "\<forall>k < nextId s. uuid k \<noteq> st_respondentId res"
    by (simp add: res_def uuid_inj)
  have rows: "responses s' = responses s @ [r]" "r_id r = st_responseId res" "r_formId r = formId"
    "r_respondentId r = st_respondentId res" "\<not> r_isCompleted r"
    "st_respondentId res = uuid (nextId s)"
    by (simp_all add: s'_def r_def res_def)
  have body: "startResponse formId now s = Inr (res, s') \<and>
         responses s' = responses s @ [r] \<and>
         r_id r = st_responseId res \<and> r_formId r = formId \<and>
         r_respondentId r = st_respondentId res \<and> \<not> r_isCompleted r \<and>
         st_respondentId res = uuid (nextId s) \<and>
         (\<forall>k < nextId s. uuid k \<noteq> st_respondentId res) \<and>
         (fs_firstQuestion (st_form res) = None) = (\<forall>q\<in>set (questions s). q_formId q \<noteq> formId) \<and>
         (\<forall>q. fs_firstQuestion (st_form res) = Some q \<longrightarrow>
            q \<in> set (questions s) \<and> q_formId q = formId \<and>
            (\<forall>q'\<in>set (questions s). q_formId q' = formId \<longrightarrow> q_order q \<le> q_order q'))"
    using run rows fresh fq_none fq_some by (intro conjI)
  have found: "(startResponse formId now s = Inl NotFound) =
      (\<forall>f\<in>set (forms s). f_id f = formId \<longrightarrow> \<not> f_isPublished f)"
    using nf run by simp
  show ?thesis
    apply (rule conjI)
     apply (rule found)
    apply (rule impI)
    apply (rule exI [where x = res])
    apply (rule exI [where x = s'])
    apply (rule exI [where x = r])
    apply (rule body)
    done
qed

theorem startResponse_result_witness:
  "(\<exists>f\<in>set (forms (branchDb\<lparr>nextId := 2\<rparr>)). f_id f = ''G'' \<and> f_isPublished f) \<and>
   (\<exists>res s' r. startResponse ''G'' 5 (branchDb\<lparr>nextId := 2\<rparr>) = Inr (res, s') \<and>
         responses s' = responses (branchDb\<lparr>nextId := 2\<rparr>) @ [r] \<and>
         r_id r = st_responseId res \<and> r_formId r = ''G'' \<and>
         r_respondentId r = st_respondentId res \<and> \<not> r_isCompleted r \<and>
         st_respondentId res = uuid (nextId (branchDb\<lparr>nextId := 2\<rparr>)) \<and>
         (\<forall>k < nextId (branchDb\<lparr>nextId := 2\<rparr>). uuid k \<noteq> st_respondentId res) \<and>
         (fs_firstQuestion (st_form res) = None) =
           (\<forall>q\<in>set (questions (branchDb\<lparr>nextId := 2\<rparr>)). q_formId q \<noteq> ''G'') \<and>
         (\<forall>q. fs_firstQuestion (st_form res) = Some q \<longrightarrow>
            q \<in> set (questions (branchDb\<lparr>nextId := 2\<rparr>)) \<and> q_formId q = ''G'' \<and>
            (\<forall>q'\<in>set (questions (branchDb\<lparr>nextId := 2\<rparr>)). q_formId q' = ''G'' \<longrightarrow> q_order q \<le> q_order q')))"
proof -
  have pub: "\<exists>f\<in>set (forms (branchDb\<lparr>nextId := 2\<rparr>)). f_id f = ''G'' \<and> f_isPublished f"
    by (simp add: branchDb_def)
  from startResponse_result [of "''G''" 5 "branchDb\<lparr>nextId := 2\<rparr>", THEN conjunct2, THEN mp, OF pub] pub
  show ?thesis by (intro conjI)
qed

section \<open>Who may submit an answer\<close>








lemma formQuestions_find_Some:
  "\<exists>q\<in>set (questions s). q_formId q = formId \<and> q_id q = questionId \<Longrightarrow>
     \<exists>question. find (\<lambda>q. q_id q = questionId) (formQuestions s formId) = Some question"
  by (cases "find (\<lambda>q. q_id q = questionId) (formQuestions s formId)")
    (auto simp: find_None_iff formQuestions_def)





section \<open>The upsert of an answer\<close>

lemma createCol_updateCol: "createCol v = updateCol v None"
  by (cases v) simp_all

lemma find_filter_hd:
  "find P xs = (case filter P xs of [] \<Rightarrow> None | x # rest \<Rightarrow> Some x)"
  by (induction xs) auto

lemma filter_map_preserved:
  "(\<And>x. P (g x) = P x) \<Longrightarrow> filter P (map g xs) = map g (filter P xs)"
  by (induction xs) auto

lemma upsertAnswer_frame:
  "responses (snd (upsertAnswer responseId questionId val fileUrl s)) = responses s"
  "questions (snd (upsertAnswer responseId questionId val fileUrl s)) = questions s"
  by (simp_all add: upsertAnswer_def Let_def split: option.splits)

lemma upsertAnswer_answersFor:
  assumes "length (answersFor s responseId questionId) \<le> 1"
  shows "\<exists>a. answersFor (snd (upsertAnswer responseId questionId val fileUrl s)) responseId questionId = [a] \<and>
           a_value a = updateCol val (storedValue s responseId questionId) \<and>
           a_fileUrl a = updateCol fileUrl (storedFileUrl s responseId questionId)"
proof (cases "answersFor s responseId questionId")
  case Nil
  then have "find (\<lambda>a. a_responseId a = responseId \<and> a_questionId a = questionId) (answers s) = None"
    by (simp add: find_filter_hd answersFor_def)
  with Nil show ?thesis
    by (simp add: upsertAnswer_def Let_def answersFor_def storedValue_def storedFileUrl_def
        createCol_updateCol)
next
  case (Cons e rest)
  with assms have rest: "rest = []" by simp
  let ?P = "\<lambda>a. a_responseId a = responseId \<and> a_questionId a = questionId"
  let ?upd = "\<lambda>a. a\<lparr>a_value := updateCol val (a_value a), a_fileUrl := updateCol fileUrl (a_fileUrl a)\<rparr>"
  let ?g = "\<lambda>row. if a_id row = a_id e then ?upd row else row"
  from Cons have found: "find ?P (answers s) = Some e"
    by (simp add: find_filter_hd answersFor_def)
  have "filter ?P (map ?g (answers s)) = map ?g (filter ?P (answers s))"
    by (rule filter_map_preserved) simp
  with Cons rest have "answersFor (snd (upsertAnswer responseId questionId val fileUrl s)) responseId questionId
      = [?upd e]"
    by (simp add: upsertAnswer_def found Let_def answersFor_def updateWhere_def)
  with Cons show ?thesis
    by (simp add: storedValue_def storedFileUrl_def)
qed

lemma find_updateWhere_id:
  "find (\<lambda>r. r_id r = responseId)
     (updateWhere P (\<lambda>r. r\<lparr>r_isCompleted := True, r_completedAt := Some now\<rparr>) rs) =
   map_option (\<lambda>r. if P r then r\<lparr>r_isCompleted := True, r_completedAt := Some now\<rparr> else r)
     (find (\<lambda>r. r_id r = responseId) rs)"
  by (induction rs) (auto simp: updateWhere_def)

lemma submitStep_state:
  assumes "submittable s responseId questionId"
  shows "answers (submitStep responseId questionId call s) =
           answers (snd (upsertAnswer responseId questionId (fst call) (fst (snd call)) s)) \<and>
         questions (submitStep responseId questionId call s) = questions s \<and>
         submittable (submitStep responseId questionId call s) responseId questionId"
proof -
  from assms obtain response where
    resp: "find (\<lambda>r. r_id r = responseId) (responses s) = Some response" and
    q: "\<exists>q\<in>set (questions s). q_formId q = r_formId response \<and> q_id q = questionId"
    by (auto simp: submittable_def)
  from formQuestions_find_Some [OF q] obtain question where
    quest: "find (\<lambda>q. q_id q = questionId) (formQuestions s (r_formId response)) = Some question"
    by blast
  obtain a s1 where up: "upsertAnswer responseId questionId (fst call) (fst (snd call)) s = (a, s1)"
    by (cases "upsertAnswer responseId questionId (fst call) (fst (snd call)) s")
  from upsertAnswer_frame [of responseId questionId "fst call" "fst (snd call)" s] up
  have frame: "responses s1 = responses s" "questions s1 = questions s" by simp_all
  show ?thesis
    using q
    by (auto simp: submitStep_def submitAnswer_def resp quest up frame Let_def submittable_def
        find_updateWhere_id)
qed

lemma submitMany_one:
  assumes "submittable s responseId questionId"
    and "answersFor s responseId questionId = [a0]"
  shows "\<exists>a. answersFor (submitMany responseId questionId calls s) responseId questionId = [a] \<and>
           a_value a = fold updateCol (map fst calls) (a_value a0) \<and>
           a_fileUrl a = fold updateCol (map (fst \<circ> snd) calls) (a_fileUrl a0)"
  using assms
proof (induction calls arbitrary: s a0)
  case Nil
  then show ?case by (simp add: submitMany_def)
next
  case (Cons call calls)
  let ?s1 = "submitStep responseId questionId call s"
  from submitStep_state [OF Cons.prems(1), of call]
  have ans: "answers ?s1 = answers (snd (upsertAnswer responseId questionId (fst call) (fst (snd call)) s))"
    and sub: "submittable ?s1 responseId questionId" by simp_all
  from Cons.prems(2) have "length (answersFor s responseId questionId) \<le> 1" by simp
  from upsertAnswer_answersFor [OF this, of "fst call" "fst (snd call)"] ans Cons.prems(2)
  obtain a1 where a1: "answersFor ?s1 responseId questionId = [a1]"
    "a_value a1 = updateCol (fst call) (a_value a0)"
    "a_fileUrl a1 = updateCol (fst (snd call)) (a_fileUrl a0)"
    by (auto simp: answersFor_def storedValue_def storedFileUrl_def)
  from Cons.IH [OF sub a1(1)] a1(2,3) show ?case
    by (simp add: submitMany_def)
qed

lemma fold_updateCol_last:
  "vs \<noteq> [] \<Longrightarrow> last vs \<noteq> Undefined \<Longrightarrow> fold updateCol vs old = createCol (last vs)"
proof (induction vs arbitrary: old rule: rev_induct)
  case Nil
  then show ?case by simp
next
  case (snoc v vs)
  then show ?case by (cases v) simp_all
qed

text \<open>
  Claim C5 says that after any sequence of calls for a response and a question the one
  stored answer carries the value and the file reference of the most recent call. A
  first call with the value "a" and no file reference, then a call with a file reference
  and no value, leaves the value "a" in the store: the update of an existing row leaves
  a column alone when the request does not carry the field.
\<close>

theorem submitMany_resubmit_counterexample:
  "map (\<lambda>a. (a_value a, a_fileUrl a))
     (answersFor (submitMany ''R'' ''Q1'' [(JVal ''a'', Undefined, 2), (Undefined, JVal ''f'', 3)] scenarioDb)
        ''R'' ''Q1'') = [(Some ''a'', Some ''f'')] \<and>
   createCol (fst (last [(JVal ''a'', Undefined, 2::nat), (Undefined, JVal ''f'', 3)])) \<noteq> Some ''a''"
  by (simp add: submitMany_def submitStep_def submitAnswer_def scenarioDb_def formQuestions_def
      mkQuestion_def upsertAnswer_def Let_def answersFor_def updateWhere_def)

text \<open>
  Claim C5, amended: for a response and a question of its form with at most one stored
  answer, after any non-empty sequence of \<open>submitAnswer\<close> calls for the pair exactly
  one answer is stored for it; its value is that of the most recent call that carried a
  value field (\<open>null\<close> clears it), or what was stored before if no call did, and the
  same holds for the file reference. In particular a field that the most recent call
  carries is stored as that call gave it.
\<close>

theorem submitMany_upsert:
  assumes "submittable s responseId questionId"
    and "length (answersFor s responseId questionId) \<le> 1"
    and "calls \<noteq> []"
  shows "\<exists>a. answersFor (submitMany responseId questionId calls s) responseId questionId = [a] \<and>
           a_value a = fold updateCol (map fst calls) (storedValue s responseId questionId) \<and>
           a_fileUrl a = fold updateCol (map (fst \<circ> snd) calls) (storedFileUrl s responseId questionId) \<and>
           (fst (last calls) \<noteq> Undefined \<longrightarrow> a_value a = createCol (fst (last calls))) \<and>
           (fst (snd (last calls)) \<noteq> Undefined \<longrightarrow> a_fileUrl a = createCol (fst (snd (last calls))))"
proof -
  from assms(3) obtain call rest where calls: "calls = call # rest" by (cases calls) auto
  let ?s1 = "submitStep responseId questionId call s"
  from submitStep_state [OF assms(1), of call]
  have ans: "answers ?s1 = answers (snd (upsertAnswer responseId questionId (fst call) (fst (snd call)) s))"
    and sub: "submittable ?s1 responseId questionId" by simp_all
  from upsertAnswer_answersFor [OF assms(2), of "fst call" "fst (snd call)"] ans
  obtain a1 where a1: "answersFor ?s1 responseId questionId = [a1]"
    "a_value a1 = updateCol (fst call) (storedValue s responseId questionId)"
    "a_fileUrl a1 = updateCol (fst (snd call)) (storedFileUrl s responseId questionId)"
    by (auto simp: answersFor_def)
  from submitMany_one [OF sub a1(1), of rest] obtain a where
    a: "answersFor (submitMany responseId questionId rest ?s1) responseId questionId = [a]"
      "a_value a = fold updateCol (map fst rest) (a_value a1)"
      "a_fileUrl a = fold updateCol (map (fst \<circ> snd) rest) (a_fileUrl a1)"
    by blast
  have run: "submitMany responseId questionId calls s = submitMany responseId questionId rest ?s1"
    by (simp add: submitMany_def calls)
  have v: "a_value a = fold updateCol (map fst calls) (storedValue s responseId questionId)"
    and f: "a_fileUrl a = fold updateCol (map (fst \<circ> snd) calls) (storedFileUrl s responseId questionId)"
    using a(2,3) a1(2,3) by (simp_all add: calls)
  have lastv: "a_value a = createCol (fst (last calls))" if "fst (last calls) \<noteq> Undefined"
    using fold_updateCol_last [of "map fst calls" "storedValue s responseId questionId"] that assms(3) v
    by (simp add: last_map)
  have lastf: "a_fileUrl a = createCol (fst (snd (last calls)))" if "fst (snd (last calls)) \<noteq> Undefined"
    using fold_updateCol_last [of "map (fst \<circ> snd) calls" "storedFileUrl s responseId questionId"]
      that assms(3) f
    by (simp add: last_map)
  show ?thesis
    apply (rule exI [where x = a])
    using a(1) v f lastv lastf run apply simp
    done
qed

theorem submitMany_upsert_witness:
  "submittable scenarioDb ''R'' ''Q1'' \<and>
   length (answersFor scenarioDb ''R'' ''Q1'') \<le> 1 \<and>
   [(JVal ''a'', JVal ''f'', 2), (JVal ''b'', JNull, 3::nat)] \<noteq> [] \<and>
   (\<exists>a. answersFor (submitMany ''R'' ''Q1'' [(JVal ''a'', JVal ''f'', 2), (JVal ''b'', JNull, 3)] scenarioDb)
          ''R'' ''Q1'' = [a] \<and>
        a_value a = Some ''b'' \<and> a_fileUrl a = None)"
proof -
  have h1: "submittable scenarioDb ''R'' ''Q1''"
    by (simp add: submittable_def scenarioDb_def mkQuestion_def)
  have h2: "length (answersFor scenarioDb ''R'' ''Q1'') \<le> 1"
    by (simp add: answersFor_def scenarioDb_def)
  have h3: "[(JVal ''a'', JVal ''f'', 2), (JVal ''b'', JNull, 3::nat)] \<noteq> []"
    by simp
  from submitMany_upsert [OF h1 h2 h3] h1 h2 h3 show ?thesis
    by auto
qed

section \<open>Completion stamps\<close>

lemma stamped_start:
  assumes "stamped t s" and "t \<le> now"
  shows "stamped now (sessionStep (Start formId now) s)"
proof (cases "find (\<lambda>f. f_id f = formId \<and> f_isPublished f) (forms s)")
  case None
  with assms show ?thesis
    by (fastforce simp: stamped_def startResponse_def)
next
  case (Some form)
  with assms show ?thesis
    by (fastforce simp: stamped_def startResponse_def Let_def)
qed

lemma stamped_mono: "stamped t s \<Longrightarrow> t \<le> t' \<Longrightarrow> stamped t' s"
  by (fastforce simp: stamped_def)

lemma stamped_responses: "responses s' = responses s \<Longrightarrow> stamped t s' = stamped t s"
  by (simp add: stamped_def)

lemma stamped_complete:
  assumes "stamped t s" and "t \<le> now" and "responses s1 = responses s"
  shows "stamped now (s1\<lparr>responses := updateWhere P
           (\<lambda>r. r\<lparr>r_isCompleted := True, r_completedAt := Some now\<rparr>) (responses s1)\<rparr>)"
  using assms by (fastforce simp: stamped_def updateWhere_def)

lemma stamped_submit:
  assumes st: "stamped t s" and le: "t \<le> now"
  shows "stamped now (sessionStep (Submit responseId questionId val fileUrl now) s)"
proof -
  obtain a s1 where up: "upsertAnswer responseId questionId val fileUrl s = (a, s1)"
    by (cases "upsertAnswer responseId questionId val fileUrl s")
  from upsertAnswer_frame(1) [of responseId questionId val fileUrl s] up
  have frame: "responses s1 = responses s" by simp
  have keep: "stamped now s" "stamped now s1"
    using stamped_mono [OF st le] frame by (simp_all add: stamped_def)
  show ?thesis
    using keep stamped_complete [OF st le frame]
    by (simp add: submitAnswer_def up Let_def split: option.splits)
qed

lemma stamped_step: "stamped t s \<Longrightarrow> t \<le> callTime c \<Longrightarrow> stamped (callTime c) (sessionStep c s)"
  by (cases c) (simp_all add: stamped_start stamped_submit del: sessionStep.simps)

lemma stamped_session:
  "stamped t s \<Longrightarrow> sorted (map callTime calls) \<Longrightarrow> \<forall>c\<in>set calls. t \<le> callTime c \<Longrightarrow>
     \<exists>t'. stamped t' (session calls s)"
proof (induction calls arbitrary: t s)
  case Nil
  then show ?case by (auto simp: session_def)
next
  case (Cons c calls)
  from Cons.prems have "stamped (callTime c) (sessionStep c s)"
    by (simp add: stamped_step)
  moreover from Cons.prems have "sorted (map callTime calls)" "\<forall>d\<in>set calls. callTime c \<le> callTime d"
    by auto
  ultimately have "\<exists>t'. stamped t' (session calls (sessionStep c s))"
    by (rule Cons.IH)
  then show ?case by (simp add: session_def)
qed

lemma recorded_step: "recorded s \<Longrightarrow> recorded (sessionStep c s)"
proof (cases c)
  case (Start formId now)
  assume "recorded s"
  then show ?thesis
    by (auto simp: Start recorded_def startResponse_def Let_def split: option.splits)
next
  case (Submit responseId questionId val fileUrl now)
  assume r: "recorded s"
  obtain a s1 where up: "upsertAnswer responseId questionId val fileUrl s = (a, s1)"
    by (cases "upsertAnswer responseId questionId val fileUrl s")
  from upsertAnswer_frame(1) [of responseId questionId val fileUrl s] up
  have frame: "responses s1 = responses s" by simp
  have keep: "recorded s1" using r frame by (simp add: recorded_def)
  have upd: "recorded (s1\<lparr>responses := updateWhere (\<lambda>r. r_id r = responseId)
      (\<lambda>r. r\<lparr>r_isCompleted := True, r_completedAt := Some now\<rparr>) (responses s1)\<rparr>)"
    using keep by (auto simp: recorded_def updateWhere_def)
  show ?thesis
    using r keep upd
    by (simp add: Submit submitAnswer_def up Let_def split: option.splits)
qed

lemma recorded_session: "recorded s \<Longrightarrow> recorded (session calls s)"
  unfolding session_def by (induction calls arbitrary: s) (simp_all add: recorded_step)

text \<open>
  Claim C7 says that in every state reachable through \<open>startResponse\<close> and
  \<open>submitAnswer\<close> a completed response has a completion stamp no earlier than its
  start. The start is the reading of the clock when the response is created and the
  completion stamp the reading when the last answer is submitted, and nothing compares
  them: when the clock reads 5 at the start and 2 at the submission of the last answer,
  the completed response has the start 5 and the completion stamp 2.
\<close>

theorem session_clock_counterexample:
  "responses (scenarioDb\<lparr>responses := []\<rparr>) = [] \<and>
   responses (session [Start ''F'' 5, Submit (uuid 1) ''Q3'' (JVal ''x'') Undefined 2]
        (scenarioDb\<lparr>responses := []\<rparr>)) =
     [\<lparr>r_id = uuid 1, r_formId = ''F'', r_respondentId = uuid 0, r_isCompleted = True,
       r_startedAt = 5, r_completedAt = Some 2\<rparr>] \<and>
   \<not> (5::nat) \<le> 2"
  by (simp add: session_def startResponse_def submitAnswer_def scenarioDb_def formQuestions_def
      mkQuestion_def upsertAnswer_def Let_def updateWhere_def uuid_def)

text \<open>
  Claim C7, amended: in every store reached from one without responses by
  \<open>startResponse\<close> and \<open>submitAnswer\<close> calls, a completed response has a
  completion stamp; and when the clock readings of the calls do not decrease from one
  call to the next, the stamp is no earlier than the start of the response.
\<close>

theorem session_completedAt:
  assumes "responses s = []"
  shows "\<forall>r\<in>set (responses (session calls s)).
           r_isCompleted r \<longrightarrow>
             (\<exists>t. r_completedAt r = Some t \<and>
                  (sorted (map callTime calls) \<longrightarrow> r_startedAt r \<le> t))"
proof (intro ballI impI)
  fix r assume r: "r \<in> set (responses (session calls s))" "r_isCompleted r"
  have "recorded s" using assms by (simp add: recorded_def)
  then have "recorded (session calls s)" by (rule recorded_session)
  with r obtain t where t: "r_completedAt r = Some t"
    by (auto simp: recorded_def)
  have "r_startedAt r \<le> t" if "sorted (map callTime calls)"
  proof -
    have "stamped 0 s" using assms by (simp add: stamped_def)
    from stamped_session [OF this that] obtain t' where "stamped t' (session calls s)"
      by auto
    with r t show ?thesis by (auto simp: stamped_def)
  qed
  with t show "\<exists>t. r_completedAt r = Some t \<and>
      (sorted (map callTime calls) \<longrightarrow> r_startedAt r \<le> t)"
    by blast
qed

theorem session_completedAt_witness:
  "responses (scenarioDb\<lparr>responses := []\<rparr>) = [] \<and>
   hd (responses (session [Start ''F'' 1, Submit (uuid 1) ''Q3'' (JVal ''x'') Undefined 2]
        (scenarioDb\<lparr>responses := []\<rparr>)))
     \<in> set (responses (session [Start ''F'' 1, Submit (uuid 1) ''Q3'' (JVal ''x'') Undefined 2]
        (scenarioDb\<lparr>responses := []\<rparr>))) \<and>
   r_isCompleted (hd (responses (session [Start ''F'' 1, Submit (uuid 1) ''Q3'' (JVal ''x'') Undefined 2]
        (scenarioDb\<lparr>responses := []\<rparr>)))) \<and>
   sorted (map callTime [Start ''F'' 1, Submit (uuid 1) ''Q3'' (JVal ''x'') Undefined 2]) \<and>
   (\<exists>t. r_completedAt (hd (responses (session [Start ''F'' 1, Submit (uuid 1) ''Q3'' (JVal ''x'') Undefined 2]
        (scenarioDb\<lparr>responses := []\<rparr>)))) = Some t \<and>
      r_startedAt (hd (responses (session [Start ''F'' 1, Submit (uuid 1) ''Q3'' (JVal ''x'') Undefined 2]
        (scenarioDb\<lparr>responses := []\<rparr>)))) \<le> t)"
proof -
  let ?calls = "[Start ''F'' 1, Submit (uuid 1) ''Q3'' (JVal ''x'') Undefined 2]"
  let ?s = "scenarioDb\<lparr>responses := []\<rparr>"
  have h1: "responses ?s = []" by simp
  have h2: "sorted (map callTime ?calls)"
    by simp
  have ev: "responses (session ?calls ?s) =
      [\<lparr>r_id = uuid 1, r_formId = ''F'', r_respondentId = uuid 0, r_isCompleted = True,
        r_startedAt = 1, r_completedAt = Some 2\<rparr>]"
    by (simp add: session_def startResponse_def submitAnswer_def scenarioDb_def formQuestions_def
        mkQuestion_def upsertAnswer_def Let_def updateWhere_def uuid_def)
  have mem: "hd (responses (session ?calls ?s)) \<in> set (responses (session ?calls ?s))"
    unfolding ev by simp
  have compl: "r_isCompleted (hd (responses (session ?calls ?s)))"
    unfolding ev by simp
  from session_completedAt [OF h1, THEN bspec, OF mem, THEN mp, OF compl] h2
  have "\<exists>t. r_completedAt (hd (responses (session ?calls ?s))) = Some t \<and>
      r_startedAt (hd (responses (session ?calls ?s))) \<le> t"
    by blast
  with h1 h2 mem compl show ?thesis
    by (intro conjI)
qed

section \<open>Publishing\<close>

text \<open>
  Claim C4 says that no operation can produce a published form without questions.
  \<open>createForm\<close> stores the published flag of its body as it comes: on the empty
  store it leaves a published form with no question, a form that \<open>publishForm\<close>
  refuses to publish.
\<close>

theorem createForm_published_without_questions:
  "createForm \<lparr>cf_title = ''T'', cf_description = Undefined, cf_isPublished = Some True\<rparr> ''u'' emptyDb =
     Inr (\<lparr>f_id = uuid 0, f_title = ''T'', f_description = None, f_isPublished = True, f_userId = ''u''\<rparr>,
          emptyDb\<lparr>forms := [\<lparr>f_id = uuid 0, f_title = ''T'', f_description = None,
                      f_isPublished = True, f_userId = ''u''\<rparr>], nextId := 1\<rparr>) \<and>
   filter (\<lambda>q. q_formId q = uuid 0)
     (questions (snd (projr (createForm
        \<lparr>cf_title = ''T'', cf_description = Undefined, cf_isPublished = Some True\<rparr> ''u'' emptyDb)))) = [] \<and>
   publishForm (uuid 0) ''u''
     (emptyDb\<lparr>forms := [\<lparr>f_id = uuid 0, f_title = ''T'', f_description = None,
                      f_isPublished = False, f_userId = ''u''\<rparr>], nextId := 1\<rparr>) = Inl BadRequest"
  by (simp add: createForm_def emptyDb_def publishForm_def uuid_def Let_def)

section \<open>The form fields after an update\<close>























section \<open>Questions removed by an update\<close>

lemma createRules_rules_prefix:
  "prefix (conditionalRules s) (conditionalRules (createRules logicId rules s))"
  by (simp add: createRules_def)





























section \<open>Deleting one question\<close>

lemma insort_key_map_embed:
  "\<forall>y\<in>set ys. (f (g x) \<le> f (g y)) = (f x \<le> f y) \<Longrightarrow>
     insort_key f (g x) (map g ys) = map g (insort_key f x ys)"
  by (induction ys) auto

lemma sort_key_map_embed:
  "\<forall>x\<in>set xs. \<forall>y\<in>set xs. (f (g x) \<le> f (g y)) = (f x \<le> f y) \<Longrightarrow>
     sort_key f (map g xs) = map g (sort_key f xs)"
proof (induction xs)
  case Nil
  then show ?case by simp
next
  case (Cons x xs)
  then have IH: "sort_key f (map g xs) = map g (sort_key f xs)" by simp
  from Cons.prems have "\<forall>y\<in>set (sort_key f xs). (f (g x) \<le> f (g y)) = (f x \<le> f y)"
    by simp
  then show ?case
    by (simp add: IH insort_key_map_embed)
qed

lemma distinct_ids_eq:
  "distinct (map q_id tbl) \<Longrightarrow> q \<in> set tbl \<Longrightarrow> r \<in> set tbl \<Longrightarrow> q_id q = q_id r \<Longrightarrow> q = r"
  by (meson distinct_map inj_onD)

lemma reorderRemaining_dec:
  assumes "distinct (map q_id tbl)" and "set R \<subseteq> set tbl" and "distinct (map q_id R)"
    and "map q_order R = map (\<lambda>j. base + 1 + int j) [i..<i + length R]"
  shows "reorderRemaining base i R tbl =
           map (\<lambda>q. if q \<in> set R then q\<lparr>q_order := q_order q - 1\<rparr> else q) tbl"
  using assms
proof (induction R arbitrary: i tbl)
  case Nil
  then show ?case by simp
next
  case (Cons r rs)
  let ?dec = "\<lambda>q :: question. q\<lparr>q_order := q_order q - 1\<rparr>"
  let ?tbl1 = "updateWhere (\<lambda>q. q_id q = q_id r) (\<lambda>q. q\<lparr>q_order := base + int i\<rparr>) tbl"
  have len: "i + length (r # rs) = Suc i + length rs" by simp
  have upt: "[i..<i + length (r # rs)] = i # [Suc i..<Suc i + length rs]"
  proof -
    have "i < Suc i + length rs" by simp
    from upt_conv_Cons [OF this] show ?thesis by (simp only: len)
  qed
  from Cons.prems(4) have "q_order r # map q_order rs =
      (base + 1 + int i) # map (\<lambda>j. base + 1 + int j) [Suc i..<Suc i + length rs]"
    by (simp only: upt list.map)
  then have ord_r: "q_order r = base + 1 + int i"
    and ord_rs: "map q_order rs = map (\<lambda>j. base + 1 + int j) [Suc i..<Suc i + length rs]"
    by (simp_all only: list.inject)
  from Cons.prems(2) have r_in: "r \<in> set tbl" and rs_in: "set rs \<subseteq> set tbl" by simp_all
  from Cons.prems(3) have r_notin: "q_id r \<notin> q_id ` set rs" and rs_dist: "distinct (map q_id rs)"
    by simp_all
  have tbl1: "?tbl1 = map (\<lambda>q. if q = r then ?dec q else q) tbl"
    unfolding updateWhere_def
  proof (rule map_cong [OF refl])
    fix q assume "q \<in> set tbl"
    with distinct_ids_eq [OF Cons.prems(1) _ r_in] have "(q_id q = q_id r) = (q = r)" by auto
    then show "(if q_id q = q_id r then q\<lparr>q_order := base + int i\<rparr> else q) =
        (if q = r then ?dec q else q)"
      by (simp add: ord_r)
  qed
  have ids1: "map q_id ?tbl1 = map q_id tbl"
    by (simp add: updateWhere_def o_def cong: map_cong)
  have d1: "distinct (map q_id ?tbl1)"
    using Cons.prems(1) by (simp only: ids1)
  have sub1: "set rs \<subseteq> set ?tbl1"
  proof
    fix x assume x: "x \<in> set rs"
    with r_notin have "x \<noteq> r" by auto
    moreover from x rs_in have "x \<in> set tbl" by auto
    ultimately show "x \<in> set ?tbl1"
      unfolding tbl1 by (auto simp: image_iff intro!: bexI [where x = x])
  qed
  have "reorderRemaining base i (r # rs) tbl = reorderRemaining base (Suc i) rs ?tbl1"
    by simp
  also have "\<dots> = map (\<lambda>q. if q \<in> set rs then ?dec q else q) ?tbl1"
    using Cons.IH [OF d1 sub1 rs_dist ord_rs] .
  also have "\<dots> = map (\<lambda>q. if q \<in> set (r # rs) then ?dec q else q) tbl"
    unfolding tbl1 map_map
  proof (rule map_cong [OF refl])
    fix q assume "q \<in> set tbl"
    have "?dec r \<notin> set rs"
    proof
      assume "?dec r \<in> set rs"
      then have "q_id (?dec r) \<in> q_id ` set rs" by (rule imageI)
      with r_notin show False by simp
    qed
    then show "((\<lambda>q. if q \<in> set rs then ?dec q else q) \<circ> (\<lambda>q. if q = r then ?dec q else q)) q =
        (if q \<in> set (r # rs) then ?dec q else q)"
      by auto
  qed
  finally show ?case .
qed

lemma dense_below:
  "N \<le> nat k \<Longrightarrow> 0 \<le> k \<Longrightarrow>
     map (\<lambda>i. if k < i then i - 1 else i) (filter (\<lambda>i. i \<noteq> k) (map int [0..<N])) = map int [0..<N]"
  by (induction N) auto

lemma dense_remove:
  "0 \<le> k \<Longrightarrow> nat k < N \<Longrightarrow>
     map (\<lambda>i. if k < i then i - 1 else i) (filter (\<lambda>i. i \<noteq> k) (map int [0..<N])) =
       map int [0..<N - 1]"
proof (induction N)
  case 0
  then show ?case by simp
next
  case (Suc N)
  show ?case
  proof (cases "nat k < N")
    case True
    with Suc have IH: "map (\<lambda>i. if k < i then i - 1 else i)
        (filter (\<lambda>i. i \<noteq> k) (map int [0..<N])) = map int [0..<N - 1]" by simp
    from True have "N = Suc (N - 1)" by simp
    then have "[0..<N] = [0..<N - 1] @ [N - 1]" by (metis upt_Suc_append zero_le)
    with True Suc.prems IH show ?thesis
      by (auto simp: of_nat_diff)
  next
    case False
    with Suc.prems have k: "nat k = N" by simp
    with Suc.prems dense_below [of N k] show ?thesis by auto
  qed
qed

lemma dense_above:
  "0 \<le> k \<Longrightarrow>
     filter (\<lambda>i. k < i) (map int [0..<N]) = map (\<lambda>j. k + 1 + int j) [0..<N - (nat k + 1)]"
proof (induction N)
  case 0
  then show ?case by simp
next
  case (Suc N)
  show ?case
  proof (cases "k < int N")
    case True
    with Suc.prems have "Suc N - (nat k + 1) = Suc (N - (nat k + 1))" by linarith
    moreover from True Suc.prems have "k + 1 + int (N - (nat k + 1)) = int N" by linarith
    ultimately show ?thesis using Suc True by simp
  next
    case False
    with Suc.prems have "Suc N - (nat k + 1) = 0" "N - (nat k + 1) = 0" by linarith+
    with Suc False show ?thesis by simp
  qed
qed

lemma distinct_map_sort_key:
  "distinct (map g (sort_key f xs)) = distinct (map g xs)"
  by (simp add: distinct_map)

lemma deleteQuestions_questions_eq:
  "questions (deleteQuestions P s) = filter (\<lambda>q. \<not> P q) (questions s)"
  by (simp add: deleteQuestions_def deleteWhere_def Let_def)

text \<open>
  Claim C6: a \<open>deleteQuestion\<close> call by the owner of the form on one of its
  questions, the identifiers of the stored questions being pairwise different and the
  orders of the form's questions being 0 to \<open>N - 1\<close>, succeeds; the question is gone
  from the store, the other questions of the form keep their relative order, those that
  followed the deleted one have their order decreased by one and the others keep theirs,
  and the orders of the form are 0 to \<open>N - 2\<close>.
\<close>

theorem deleteQuestion_compacts:
  assumes form: "find (\<lambda>f. f_id f = formId \<and> f_userId f = userId) (forms s) = Some form"
    and quest: "find (\<lambda>q. q_id q = ident \<and> q_formId q = formId) (questions s) = Some existingQuestion"
    and keys: "distinct (map q_id (questions s))"
    and dense: "map q_order (formQuestions s formId) = map int [0..<N]"
  shows "\<exists>s'. deleteQuestion formId ident userId s = Inr s' \<and>
           formQuestions s' formId =
             map (\<lambda>q. if q_order existingQuestion < q_order q then q\<lparr>q_order := q_order q - 1\<rparr> else q)
               (filter (\<lambda>q. q_id q \<noteq> ident) (formQuestions s formId)) \<and>
           map q_order (formQuestions s' formId) = map int [0..<N - 1] \<and>
           ident \<notin> q_id ` set (questions s')"
proof -
  define k where "k = q_order existingQuestion"
  define T where "T = questions s"
  define F where "F = formQuestions s formId"
  define T1 where "T1 = filter (\<lambda>q. q_id q \<noteq> ident) T"
  define X where "X = filter (\<lambda>q. q_formId q = formId) T1"
  define R where "R = sort_key q_order (filter (\<lambda>q. q_formId q = formId \<and> k < q_order q) T1)"
  define dec where "dec = (\<lambda>q :: question. q\<lparr>q_order := q_order q - 1\<rparr>)"
  define g where "g = (\<lambda>q. if k < q_order q then dec q else q)"
  define s1 where "s1 = deleteQuestions (\<lambda>q. q_id q = ident) s"
  define s' where "s' = s1\<lparr>questions := reorderRemaining k 0 R (questions s1)\<rparr>"
  have F: "F = sort_key q_order (filter (\<lambda>q. q_formId q = formId) T)"
    by (simp add: F_def T_def formQuestions_def)
  have T1: "questions s1 = T1"
    by (simp add: s1_def T1_def T_def deleteQuestions_questions_eq)
  have run: "deleteQuestion formId ident userId s = Inr s'"
    by (simp add: deleteQuestion_def form quest Let_def s'_def s1_def [symmetric] T1 R_def k_def)
  \<comment> \<open>the deleted row\<close>
  from quest have q0: "existingQuestion \<in> set T" "q_id existingQuestion = ident"
    "q_formId existingQuestion = formId"
    by (auto simp: find_Some_iff T_def)
  then have q0F: "existingQuestion \<in> set F" by (simp add: F)
  have ordF: "map q_order F = map int [0..<N]" using dense by (simp add: F_def)
  have "k \<in> set (map q_order F)" using q0F by (simp add: k_def)
  then have k: "0 \<le> k" "nat k < N" unfolding ordF by auto
  have dF: "distinct (map q_order F)" unfolding ordF by (simp add: distinct_map inj_on_def)
  have idT: "q = existingQuestion" if "q \<in> set T" "q_id q = ident" for q
    using keys that q0 by (auto simp: T_def intro: distinct_ids_eq)
  have ordq0: "(q_order q = k) = (q_id q = ident)" if "q \<in> set F" for q
  proof
    assume "q_order q = k"
    with dF that q0F have "q = existingQuestion"
      by (auto simp: distinct_map k_def dest: inj_onD)
    then show "q_id q = ident" by (simp add: q0)
  next
    assume "q_id q = ident"
    with that idT have "q = existingQuestion" by (simp add: F)
    then show "q_order q = k" by (simp add: k_def)
  qed
  \<comment> \<open>the form's rows without the deleted one, in order\<close>
  have X: "X = filter (\<lambda>q. q_id q \<noteq> ident) (filter (\<lambda>q. q_formId q = formId) T)"
    by (simp add: X_def T1_def conj_commute)
  have sortX: "sort_key q_order X = filter (\<lambda>q. q_id q \<noteq> ident) F"
    unfolding X F by (simp add: filter_sort)
  have F1: "filter (\<lambda>q. q_id q \<noteq> ident) F = filter (\<lambda>q. q_order q \<noteq> k) F"
    by (rule filter_cong [OF refl]) (simp add: ordq0)
  have ordF1: "map q_order (filter (\<lambda>q. q_id q \<noteq> ident) F) = filter (\<lambda>i. i \<noteq> k) (map int [0..<N])"
    unfolding F1 ordF [symmetric] by (simp add: filter_map o_def)
  \<comment> \<open>the rows the loop visits\<close>
  have R: "R = filter (\<lambda>q. k < q_order q) (filter (\<lambda>q. q_id q \<noteq> ident) F)"
  proof -
    have "filter (\<lambda>q. q_formId q = formId \<and> k < q_order q) T1 = filter (\<lambda>q. k < q_order q) X"
      by (simp add: X_def conj_commute)
    then show ?thesis
      unfolding R_def by (simp add: filter_sort sortX [symmetric])
  qed
  have "map q_order R = filter (\<lambda>i. k < i) (filter (\<lambda>i. i \<noteq> k) (map int [0..<N]))"
    unfolding R ordF1 [symmetric] by (simp add: filter_map o_def)
  also have "\<dots> = filter (\<lambda>i. k < i) (map int [0..<N])"
    by (simp cong: filter_cong) (rule filter_cong, auto)
  also have "\<dots> = map (\<lambda>j. k + 1 + int j) [0..<N - (nat k + 1)]"
    using k(1) by (rule dense_above)
  finally have ordR0: "map q_order R = map (\<lambda>j. k + 1 + int j) [0..<N - (nat k + 1)]" .
  then have "length R = N - (nat k + 1)"
    by (metis length_map length_upt minus_nat.diff_0)
  with ordR0 have ordR: "map q_order R = map (\<lambda>j. k + 1 + int j) [0..<0 + length R]" by simp
  have dT1: "distinct (map q_id T1)"
    using keys by (simp add: T1_def T_def distinct_map_filter)
  have setR: "set R = {q \<in> set T1. q_formId q = formId \<and> k < q_order q}"
    by (auto simp: R_def)
  then have subR: "set R \<subseteq> set T1" by auto
  have dR: "distinct (map q_id R)"
    unfolding R_def distinct_map_sort_key using dT1 by (rule distinct_map_filter)
  have T2: "reorderRemaining k 0 R T1 =
      map (\<lambda>q. if q_formId q = formId \<and> k < q_order q then dec q else q) T1"
  proof -
    have "reorderRemaining k 0 R T1 = map (\<lambda>q. if q \<in> set R then q\<lparr>q_order := q_order q - 1\<rparr> else q) T1"
      using dT1 subR dR ordR by (rule reorderRemaining_dec)
    also have "\<dots> = map (\<lambda>q. if q_formId q = formId \<and> k < q_order q then dec q else q) T1"
      by (rule map_cong [OF refl]) (simp add: setR dec_def)
    finally show ?thesis .
  qed
  have qs': "questions s' = map (\<lambda>q. if q_formId q = formId \<and> k < q_order q then dec q else q) T1"
    by (simp add: s'_def T1 T2)
  \<comment> \<open>the form's rows afterwards\<close>
  have "filter (\<lambda>q. q_formId q = formId) (questions s') = map g X"
    unfolding qs' X_def
    by (induction T1) (auto simp: g_def dec_def)
  then have "formQuestions s' formId = sort_key q_order (map g X)"
    by (simp add: formQuestions_def)
  also have "\<dots> = map g (sort_key q_order X)"
  proof (rule sort_key_map_embed, intro ballI)
    fix x y assume "x \<in> set X" "y \<in> set X"
    then have "x \<in> set F" "q_id x \<noteq> ident" "y \<in> set F" "q_id y \<noteq> ident"
      by (auto simp: X F)
    then have "q_order x \<noteq> k" "q_order y \<noteq> k" by (simp_all add: ordq0)
    then show "(q_order (g x) \<le> q_order (g y)) = (q_order x \<le> q_order y)"
      by (auto simp: g_def dec_def)
  qed
  finally have main: "formQuestions s' formId = map g (filter (\<lambda>q. q_id q \<noteq> ident) F)"
    by (simp add: sortX)
  have "map q_order (map g (filter (\<lambda>q. q_id q \<noteq> ident) F)) =
      map (\<lambda>i. if k < i then i - 1 else i) (map q_order (filter (\<lambda>q. q_id q \<noteq> ident) F))"
    by (simp add: g_def dec_def o_def cong: map_cong)
  also have "\<dots> = map int [0..<N - 1]"
    unfolding ordF1 using k by (rule dense_remove)
  finally have orders: "map q_order (formQuestions s' formId) = map int [0..<N - 1]"
    by (simp add: main)
  have gone: "ident \<notin> q_id ` set (questions s')"
    by (auto simp: qs' T1_def dec_def)
  have "deleteQuestion formId ident userId s = Inr s' \<and>
      formQuestions s' formId =
        map (\<lambda>q. if q_order existingQuestion < q_order q then q\<lparr>q_order := q_order q - 1\<rparr> else q)
          (filter (\<lambda>q. q_id q \<noteq> ident) (formQuestions s formId)) \<and>
      map q_order (formQuestions s' formId) = map int [0..<N - 1] \<and>
      ident \<notin> q_id ` set (questions s')"
    using run main orders gone by (simp add: g_def dec_def k_def F_def)
  then show ?thesis by (rule exI)
qed

theorem deleteQuestion_compacts_witness:
  "find (\<lambda>f. f_id f = ''D'' \<and> f_userId f = ''u'') (forms fourDb) = Some (hd (forms fourDb)) \<and>
   find (\<lambda>q. q_id q = ''b'' \<and> q_formId q = ''D'') (questions fourDb) = Some (mkQuestion ''b'' ''D'' 1) \<and>
   distinct (map q_id (questions fourDb)) \<and>
   map q_order (formQuestions fourDb ''D'') = map int [0..<4] \<and>
   (\<exists>s'. deleteQuestion ''D'' ''b'' ''u'' fourDb = Inr s' \<and>
      formQuestions s' ''D'' = [mkQuestion ''a'' ''D'' 0, mkQuestion ''c'' ''D'' 1, mkQuestion ''d'' ''D'' 2] \<and>
      map q_order (formQuestions s' ''D'') = map int [0..<4 - 1] \<and>
      ''b'' \<notin> q_id ` set (questions s'))"
proof -
  have h1: "find (\<lambda>f. f_id f = ''D'' \<and> f_userId f = ''u'') (forms fourDb) = Some (hd (forms fourDb))"
    by (simp add: fourDb_def)
  have h2: "find (\<lambda>q. q_id q = ''b'' \<and> q_formId q = ''D'') (questions fourDb) = Some (mkQuestion ''b'' ''D'' 1)"
    by (simp add: fourDb_def mkQuestion_def)
  have h3: "distinct (map q_id (questions fourDb))"
    by (simp add: fourDb_def mkQuestion_def)
  have qs: "formQuestions fourDb ''D'' =
      [mkQuestion ''a'' ''D'' 0, mkQuestion ''b'' ''D'' 1, mkQuestion ''c'' ''D'' 2, mkQuestion ''d'' ''D'' 3]"
    by (simp add: fourDb_def formQuestions_def mkQuestion_def)
  have upt4: "[0..<4] = [0, 1, 2, 3]"
    by (simp add: upt_rec)
  have h4: "map q_order (formQuestions fourDb ''D'') = map int [0..<4]"
    unfolding qs upt4 by (simp add: mkQuestion_def)
  have after: "map (\<lambda>q. if q_order (mkQuestion ''b'' ''D'' 1) < q_order q then q\<lparr>q_order := q_order q - 1\<rparr> else q)
      (filter (\<lambda>q. q_id q \<noteq> ''b'') (formQuestions fourDb ''D'')) =
      [mkQuestion ''a'' ''D'' 0, mkQuestion ''c'' ''D'' 1, mkQuestion ''d'' ''D'' 2]"
    unfolding qs by (simp add: mkQuestion_def)
  from deleteQuestion_compacts [OF h1 h2 h3 h4]
  have "\<exists>s'. deleteQuestion ''D'' ''b'' ''u'' fourDb = Inr s' \<and>
      formQuestions s' ''D'' = [mkQuestion ''a'' ''D'' 0, mkQuestion ''c'' ''D'' 1, mkQuestion ''d'' ''D'' 2] \<and>
      map q_order (formQuestions s' ''D'') = map int [0..<4 - 1] \<and>
      ''b'' \<notin> q_id ` set (questions s')"
    by (simp only: after)
  with h1 h2 h3 h4 show ?thesis
    by (intro conjI)
qed

section \<open>The accuracy of the rounding\<close>

lemma pow2_powi: "pow2 e = 2 powi e"
  by (simp add: pow2_def power_int_def inverse_eq_divide power_divide)





lemma pow2_strict_mono: "a < b \<Longrightarrow> pow2 a < pow2 b"
  by (simp add: pow2_powi power_int_strict_increasing)



















section \<open>The rates of the analytics\<close>



















end
